theory Spec2Isabelle
  imports Main "HOL-Library.AList" "HOL-Library.Multiset"
begin

section \<open>Function composition (src/src/compose.js)\<close>

text \<open>
  \<^verbatim>\<open>compose(...funcs)\<close> returns the identity for no function, the function itself for
  one function, and otherwise \<^verbatim>\<open>funcs.reduce((a, b) => (...args) => a(b(...args)))\<close>.
  \<^verbatim>\<open>Array.prototype.reduce\<close> without an initial value starts from the first element and
  folds the remaining ones from the left, which is \<open>foldl\<close> on the tail.
\<close>

definition compose :: "('a \<Rightarrow> 'a) list \<Rightarrow> 'a \<Rightarrow> 'a" where
  "compose funcs =
     (case funcs of
        [] \<Rightarrow> (\<lambda>arg. arg)
      | [f] \<Rightarrow> f
      | f # rest \<Rightarrow> foldl (\<lambda>a b. (\<lambda>args. a (b args))) f rest)"

section \<open>Values, thrown errors and property reads\<close>

text \<open>
  JavaScript values. An object carries its identity (the reference), whether it is a plain
  record, and its own properties in insertion order. Objects of the state tree and actions
  are never mutated in place by the code modelled here, so an object value holds its
  contents. A function object is \<open>VFun f\<close>; what calling it does is given by a table from
  \<open>f\<close> to its code. Properties inherited from prototypes and the properties of primitive
  wrappers are not modelled: reading any property of a primitive gives \<open>undefined\<close>.
\<close>

datatype val =
    VUndef
  | VNull
  | VBool bool
  | VNum int
  | VStr string
  | VFun nat
  | VObj nat bool "(string \<times> val) list"

text \<open>
  A thrown value is an \<^verbatim>\<open>Error\<close> or \<^verbatim>\<open>TypeError\<close> object with its message; such an
  object is truthy, so a test like \<^verbatim>\<open>if (shapeAssertionError)\<close> asks whether an error was
  caught. Long messages of the source are cut after their first sentences.
\<close>

datatype err = Error string | TypeError string

text \<open>\<^verbatim>\<open>a !== b\<close>: objects and functions compare by reference, primitives by value.\<close>

fun strict_neq :: "val \<Rightarrow> val \<Rightarrow> bool" where
  "strict_neq (VObj a _ _) (VObj b _ _) = (a \<noteq> b)"
| "strict_neq v w = (v \<noteq> w)"


text \<open>\<^verbatim>\<open>v[key]\<close>: a \<^verbatim>\<open>TypeError\<close> on \<^verbatim>\<open>undefined\<close> and \<^verbatim>\<open>null\<close>.\<close>

fun get_prop :: "val \<Rightarrow> string \<Rightarrow> err + val" where
  "get_prop VUndef key = Inl (TypeError ''Cannot read properties of undefined'')"
| "get_prop VNull key = Inl (TypeError ''Cannot read properties of null'')"
| "get_prop (VObj a p ps) key = Inr (case map_of ps key of None \<Rightarrow> VUndef | Some v \<Rightarrow> v)"
| "get_prop v key = Inr VUndef"

text \<open>\<^verbatim>\<open>typeof v === 'function'\<close> and \<^verbatim>\<open>typeof v === 'undefined'\<close>.\<close>

fun is_function :: "val \<Rightarrow> bool" where
  "is_function (VFun f) = True"
| "is_function v = False"

definition is_undefined :: "val \<Rightarrow> bool" where
  "is_undefined v = (v = VUndef)"




text \<open>
  Modelled from the spec: \<^verbatim>\<open>utils/actionTypes\<close> is not among the sources. Its two reserved
  discriminants, INIT and REPLACE, are taken as a parameter.
\<close>

record ActionTypes =
  INIT :: string
  REPLACE :: string

text \<open>The object literal \<^verbatim>\<open>{ type: t }\<close>, allocated with identity \<open>n\<close>.\<close>

definition action_of_type :: "nat \<Rightarrow> val \<Rightarrow> val" where
  "action_of_type n t = VObj n True [(''type'', t)]"

section \<open>Reducer composition (src/unnamed/part_001, combineReducers.js)\<close>

text \<open>
  A sub-reducer is a pure function of the slice and the action that returns a value or
  throws. The argument of \<^verbatim>\<open>combineReducers\<close> is an object, given by its own properties in
  the order of \<^verbatim>\<open>Object.keys\<close> (keys are distinct). The table \<open>code\<close> gives the reducer
  behind each function object. The development-only branches (\<^verbatim>\<open>warning(...)\<close> and the
  unexpected-key cache) write to the console and to a cache that nothing else reads; they
  are left out.
\<close>

type_synonym reducer = "val \<Rightarrow> val \<Rightarrow> err + val"











text \<open>
  Vocabulary for the statements about \<^verbatim>\<open>combination\<close>: the slice \<^verbatim>\<open>state[key]\<close> that a
  sub-reducer is given, the slice it computes, whether the two differ by reference
  (\<^verbatim>\<open>nextStateForKey !== previousStateForKey\<close>), and whether the sub-reducer returns a
  value other than \<^verbatim>\<open>undefined\<close>.
\<close>

definition read_slice :: "val \<Rightarrow> string \<Rightarrow> val" where
  "read_slice state key = (case get_prop state key of Inr v \<Rightarrow> v | Inl e \<Rightarrow> VUndef)"





subsection \<open>Example reducers\<close>

text \<open>
  Reducer 0 counts \<open>inc\<close> actions, reducer 1 keeps its slice, reducer 2 answers the INIT
  action only (it returns \<^verbatim>\<open>undefined\<close> for an unknown type on an absent state), reducer 3
  returns \<^verbatim>\<open>undefined\<close> for a \<open>drop\<close> action on a present state, and every other
  function throws.
\<close>

definition ex_types :: ActionTypes where
  "ex_types = \<lparr>INIT = ''@@redux/INIT1.x'', REPLACE = ''@@redux/REPLACE2.y''\<rparr>"

definition has_type :: "val \<Rightarrow> string \<Rightarrow> bool" where
  "has_type action t = (get_prop action ''type'' = Inr (VStr t))"



definition ex_state :: val where
  "ex_state = VObj 2 True [(''a'', VNum 1), (''b'', VObj 3 True []), (''stale'', VNum 9)]"





definition ex_inc :: val where
  "ex_inc = action_of_type 4 (VStr ''inc'')"

definition ex_noop :: val where
  "ex_noop = action_of_type 5 (VStr ''noop'')"


section \<open>Store engine (src/unnamed/part_002, createStore.js)\<close>

text \<open>
  Modelled from the spec: \<^verbatim>\<open>utils/isPlainObject\<close> is not among the sources. The spec calls
  it a plain-object/record type guard; here it reads the flag that an object value
  carries, and no primitive, function or \<^verbatim>\<open>null\<close> is a plain object.
\<close>

fun isPlainObject :: "val \<Rightarrow> bool" where
  "isPlainObject (VObj a plain ps) = plain"
| "isPlainObject v = False"

text \<open>
  User code (a reducer, a listener) is a tree of calls on the store: each call node holds
  the continuation, which receives what the call gave back, a returned value, an
  unsubscribe closure or a thrown error, so that user code may catch an error or let it
  propagate. \<open>Emit\<close> is an effect on the user's own data (a log). The table \<open>code\<close>
  gives the body of a function object on an argument list.
\<close>

datatype outcome = Returned val | Unsubscriber nat | Threw err

datatype prog =
    Return val
  | Throw err
  | Emit val prog
  | CallDispatch val "outcome \<Rightarrow> prog"
  | CallGetState "outcome \<Rightarrow> prog"
  | CallSubscribe val "outcome \<Rightarrow> prog"
  | CallUnsubscribe nat "outcome \<Rightarrow> prog"
  | CallReplaceReducer val "outcome \<Rightarrow> prog"

type_synonym code = "nat \<Rightarrow> val list \<Rightarrow> prog"

definition body_of :: "code \<Rightarrow> val \<Rightarrow> val list \<Rightarrow> prog" where
  "body_of C fv args =
     (case fv of VFun f \<Rightarrow> C f args | _ \<Rightarrow> Throw (TypeError ''not a function''))"

text \<open>
  The variables that the closures of one \<^verbatim>\<open>createStore\<close> call share. The two listener
  variables hold references to arrays: \<open>arrays\<close> is the heap of listener arrays, an
  address is an index into it, and \<^verbatim>\<open>nextListeners === currentListeners\<close> compares the
  two addresses. Each \<^verbatim>\<open>subscribe\<close> call creates an unsubscribe closure with its own
  \<^verbatim>\<open>listener\<close> and \<^verbatim>\<open>isSubscribed\<close>; \<open>subscriptions\<close> holds these pairs, and the closure
  is named by its index. \<open>nextObject\<close> is the next free object identity and \<open>emitted\<close>
  collects what user code emitted.
\<close>

record store =
  currentReducer :: val
  currentState :: val
  arrays :: "val list list"
  currentListeners :: nat
  nextListeners :: nat
  isDispatching :: bool
  subscriptions :: "(val \<times> bool) list"
  nextObject :: nat
  emitted :: "val list"

definition ensureCanMutateNextListeners :: "store \<Rightarrow> store" where
  "ensureCanMutateNextListeners s =
     (if nextListeners s = currentListeners s
      then s\<lparr>arrays := arrays s @ [arrays s ! currentListeners s],
             nextListeners := length (arrays s)\<rparr>
      else s)"

definition getState :: "store \<Rightarrow> err + val" where
  "getState s =
     (if isDispatching s
      then Inl (Error ''You may not call store.getState() while the reducer is executing.'')
      else Inr (currentState s))"

text \<open>\<^verbatim>\<open>subscribe\<close> returns the index of the unsubscribe closure it created.\<close>

definition subscribe :: "val \<Rightarrow> store \<Rightarrow> (err + nat) \<times> store" where
  "subscribe listener s =
     (if \<not> is_function listener
      then (Inl (Error ''Expected the listener to be a function.''), s)
      else if isDispatching s
      then (Inl (Error ''You may not call store.subscribe() while the reducer is executing.''), s)
      else let s1 = ensureCanMutateNextListeners s;
               a = nextListeners s1
           in (Inr (length (subscriptions s1)),
               s1\<lparr>arrays := (arrays s1)[a := arrays s1 ! a @ [listener]],
                  subscriptions := subscriptions s1 @ [(listener, True)]\<rparr>))"

text \<open>
  \<^verbatim>\<open>Array.prototype.indexOf\<close> (strict equality, \<open>-1\<close> when absent) and
  \<^verbatim>\<open>splice(index, 1)\<close>, where a negative index counts from the end.
\<close>

fun indexOf :: "val list \<Rightarrow> val \<Rightarrow> int" where
  "indexOf [] v = - 1"
| "indexOf (x # xs) v =
     (if \<not> strict_neq x v then 0
      else (let i = indexOf xs v in if i < 0 then - 1 else i + 1))"

definition splice1 :: "val list \<Rightarrow> int \<Rightarrow> val list" where
  "splice1 xs index =
     (let len = int (length xs);
          start = (if index < 0 then max (len + index) 0 else min index len)
      in take (nat start) xs @ drop (nat start + 1) xs)"

text \<open>
  The closure \<^verbatim>\<open>unsubscribe\<close> number \<open>tok\<close>. Calling a closure that no \<^verbatim>\<open>subscribe\<close> call
  has created is calling something that is not a function.
\<close>

definition unsubscribe :: "nat \<Rightarrow> store \<Rightarrow> (err + unit) \<times> store" where
  "unsubscribe tok s =
     (if tok \<ge> length (subscriptions s) then (Inl (TypeError ''not a function''), s)
      else let (listener, isSubscribed) = subscriptions s ! tok
           in if \<not> isSubscribed then (Inr (), s)
              else if isDispatching s
              then (Inl (Error ''You may not unsubscribe from a store listener while the reducer is executing.''), s)
              else let s1 = s\<lparr>subscriptions := (subscriptions s)[tok := (listener, False)]\<rparr>;
                       s2 = ensureCanMutateNextListeners s1;
                       a = nextListeners s2;
                       index = indexOf (arrays s2 ! a) listener
                   in (Inr (), s2\<lparr>arrays := (arrays s2)[a := splice1 (arrays s2 ! a) index]\<rparr>))"

definition to_outcome :: "err + val \<Rightarrow> outcome" where
  "to_outcome r = (case r of Inl e \<Rightarrow> Threw e | Inr v \<Rightarrow> Returned v)"

definition reentrancy_error :: err where
  "reentrancy_error = Error ''Reducers may not dispatch actions.''"

text \<open>
  Running user code, \<^verbatim>\<open>dispatch\<close>, its notification loop and \<^verbatim>\<open>replaceReducer\<close> call each
  other, and a listener may dispatch again without bound, so every function takes fuel
  and \<open>None\<close> means that the fuel ran out. \<open>T\<close> holds the reserved action types.

  In \<^verbatim>\<open>dispatch\<close>, the \<^verbatim>\<open>try\<close> block sets the flag and assigns the reducer's result, and
  the \<^verbatim>\<open>finally\<close> block resets the flag on both ways out. The loop reads
  \<^verbatim>\<open>listeners.length\<close> and \<^verbatim>\<open>listeners[i]\<close> from the array at address \<open>c\<close> on every
  iteration, as the source does.
\<close>

fun run :: "code \<Rightarrow> ActionTypes \<Rightarrow> nat \<Rightarrow> prog \<Rightarrow> store \<Rightarrow> ((err + val) \<times> store) option"
  and dispatch :: "code \<Rightarrow> ActionTypes \<Rightarrow> nat \<Rightarrow> val \<Rightarrow> store \<Rightarrow> ((err + val) \<times> store) option"
  and notify :: "code \<Rightarrow> ActionTypes \<Rightarrow> nat \<Rightarrow> nat \<Rightarrow> nat \<Rightarrow> store \<Rightarrow> ((err + unit) \<times> store) option"
  and replaceReducer :: "code \<Rightarrow> ActionTypes \<Rightarrow> nat \<Rightarrow> val \<Rightarrow> store \<Rightarrow> ((err + val) \<times> store) option"
  where
  "run C T 0 p s = None"
| "run C T (Suc k) (Return v) s = Some (Inr v, s)"
| "run C T (Suc k) (Throw e) s = Some (Inl e, s)"
| "run C T (Suc k) (Emit v p) s = run C T k p (s\<lparr>emitted := emitted s @ [v]\<rparr>)"
| "run C T (Suc k) (CallDispatch action cont) s =
     (case dispatch C T k action s of
        None \<Rightarrow> None
      | Some (r, s1) \<Rightarrow> run C T k (cont (to_outcome r)) s1)"
| "run C T (Suc k) (CallGetState cont) s = run C T k (cont (to_outcome (getState s))) s"
| "run C T (Suc k) (CallSubscribe listener cont) s =
     (case subscribe listener s of
        (Inl e, s1) \<Rightarrow> run C T k (cont (Threw e)) s1
      | (Inr tok, s1) \<Rightarrow> run C T k (cont (Unsubscriber tok)) s1)"
| "run C T (Suc k) (CallUnsubscribe tok cont) s =
     (case unsubscribe tok s of
        (Inl e, s1) \<Rightarrow> run C T k (cont (Threw e)) s1
      | (Inr u, s1) \<Rightarrow> run C T k (cont (Returned VUndef)) s1)"
| "run C T (Suc k) (CallReplaceReducer nextReducer cont) s =
     (case replaceReducer C T k nextReducer s of
        None \<Rightarrow> None
      | Some (r, s1) \<Rightarrow> run C T k (cont (to_outcome r)) s1)"
| "dispatch C T 0 action s = None"
| "dispatch C T (Suc k) action s =
     (if \<not> isPlainObject action
      then Some (Inl (Error ''Actions must be plain objects. Use custom middleware for async actions.''), s)
      else if is_undefined (read_slice action ''type'')
      then Some (Inl (Error ''Actions may not have an undefined \"type\" property. Have you misspelled a constant?''), s)
      else if isDispatching s
      then Some (Inl reentrancy_error, s)
      else (case run C T k (body_of C (currentReducer s) [currentState s, action])
                   (s\<lparr>isDispatching := True\<rparr>) of
              None \<Rightarrow> None
            | Some (Inl e, s1) \<Rightarrow> Some (Inl e, s1\<lparr>isDispatching := False\<rparr>)
            | Some (Inr v, s1) \<Rightarrow>
                (let s2 = s1\<lparr>currentState := v, isDispatching := False\<rparr>;
                     s3 = s2\<lparr>currentListeners := nextListeners s2\<rparr>
                 in case notify C T k (currentListeners s3) 0 s3 of
                      None \<Rightarrow> None
                    | Some (Inl e, s4) \<Rightarrow> Some (Inl e, s4)
                    | Some (Inr u, s4) \<Rightarrow> Some (Inr action, s4))))"
| "notify C T 0 c i s = None"
| "notify C T (Suc k) c i s =
     (if i < length (arrays s ! c)
      then (case run C T k (body_of C (arrays s ! c ! i) []) s of
              None \<Rightarrow> None
            | Some (Inl e, s1) \<Rightarrow> Some (Inl e, s1)
            | Some (Inr v, s1) \<Rightarrow> notify C T k c (i + 1) s1)
      else Some (Inr (), s))"
| "replaceReducer C T 0 nextReducer s = None"
| "replaceReducer C T (Suc k) nextReducer s =
     (if \<not> is_function nextReducer
      then Some (Inl (Error ''Expected the nextReducer to be a function.''), s)
      else (case dispatch C T k (action_of_type (nextObject s) (VStr (REPLACE T)))
                   (s\<lparr>currentReducer := nextReducer, nextObject := nextObject s + 1\<rparr>) of
              None \<Rightarrow> None
            | Some (Inl e, s1) \<Rightarrow> Some (Inl e, s1)
            | Some (Inr a, s1) \<Rightarrow> Some (Inr VUndef, s1)))"

text \<open>
  \<^verbatim>\<open>createStore(reducer, preloadedState)\<close> with no enhancer and a \<^verbatim>\<open>preloadedState\<close> that is
  not a function (the source takes a function in that position as the enhancer): the
  check of the reducer, the initial variables, then the INIT dispatch. The enhancer
  branch \<^verbatim>\<open>enhancer(createStore)(reducer, preloadedState)\<close> is modelled for the enhancer
  that \<^verbatim>\<open>applyMiddleware\<close> returns, below.
\<close>

definition initial_store :: "val \<Rightarrow> val \<Rightarrow> nat \<Rightarrow> store" where
  "initial_store reducer preloadedState n =
     \<lparr>currentReducer = reducer, currentState = preloadedState, arrays = [[]],
      currentListeners = 0, nextListeners = 0, isDispatching = False,
      subscriptions = [], nextObject = n, emitted = []\<rparr>"

definition createStore :: "code \<Rightarrow> ActionTypes \<Rightarrow> nat \<Rightarrow> val \<Rightarrow> val \<Rightarrow> nat \<Rightarrow> (err + store) option" where
  "createStore C T k reducer preloadedState n =
     (if \<not> is_function reducer then Some (Inl (Error ''Expected the reducer to be a function.''))
      else (case dispatch C T k (action_of_type n (VStr (INIT T)))
                   (initial_store reducer preloadedState (n + 1)) of
              None \<Rightarrow> None
            | Some (Inl e, s) \<Rightarrow> Some (Inl e)
            | Some (Inr a, s) \<Rightarrow> Some (Inr s)))"

text \<open>
  Vocabulary for the statements about the store: \<open>quiet s s'\<close> says that the state, the
  phase flag, the listener arrays and the subscriptions of \<open>s'\<close> are those of \<open>s\<close>; the
  staging list is the array that \<^verbatim>\<open>nextListeners\<close> refers to.
\<close>

definition quiet :: "store \<Rightarrow> store \<Rightarrow> bool" where
  "quiet s s' \<longleftrightarrow>
     currentState s' = currentState s \<and> isDispatching s' = isDispatching s \<and>
     arrays s' = arrays s \<and> currentListeners s' = currentListeners s \<and>
     nextListeners s' = nextListeners s \<and> subscriptions s' = subscriptions s"

definition staging :: "store \<Rightarrow> val list" where
  "staging s = arrays s ! nextListeners s"

definition valid_action :: "val \<Rightarrow> bool" where
  "valid_action action \<longleftrightarrow> isPlainObject action \<and> \<not> is_undefined (read_slice action ''type'')"

subsection \<open>Example store\<close>

text \<open>
  Function 0 is a reducer: on an \<open>again\<close> action it calls \<^verbatim>\<open>dispatch\<close> itself and lets the
  error propagate, on \<open>boom\<close> it throws, on \<open>inc\<close> it counts, and otherwise it returns the
  state (zero when the state is absent). Functions 1, 2 and 3 are listeners that log their
  name; listener 1 also subscribes listener 3 while it is being notified.
\<close>

definition ex_reducer :: "val list \<Rightarrow> prog" where
  "ex_reducer args =
     (case args of
        [st, a] \<Rightarrow>
          if has_type a ''again''
          then CallDispatch a (\<lambda>r. case r of Threw e \<Rightarrow> Throw e | _ \<Rightarrow> Return st)
          else if has_type a ''boom'' then Throw (Error ''boom'')
          else if has_type a ''inc''
          then Return (case st of VNum n \<Rightarrow> VNum (n + 1) | _ \<Rightarrow> VNum 0)
          else Return (if is_undefined st then VNum 0 else st)
      | _ \<Rightarrow> Return VUndef)"

definition ex_prog :: code where
  "ex_prog f args =
     (if f = 0 then ex_reducer args
      else if f = 1 then Emit (VStr ''L1'') (CallSubscribe (VFun 3) (\<lambda>r. Return VUndef))
      else if f = 2 then Emit (VStr ''L2'') (Return VUndef)
      else if f = 3 then Emit (VStr ''L3'') (Return VUndef)
      else Return VUndef)"

definition ex_store :: store where
  "ex_store = \<lparr>currentReducer = VFun 0, currentState = VNum 0, arrays = [[]],
      currentListeners = 0, nextListeners = 0, isDispatching = False,
      subscriptions = [], nextObject = 21, emitted = []\<rparr>"

definition ex_again :: val where
  "ex_again = action_of_type 30 (VStr ''again'')"

definition ex_boom :: val where
  "ex_boom = action_of_type 31 (VStr ''boom'')"

text \<open>The store after \<^verbatim>\<open>subscribe(f2)\<close>, \<^verbatim>\<open>subscribe(f3)\<close> and \<^verbatim>\<open>subscribe(f2)\<close> again.\<close>

definition ex_subscribed2 :: store where
  "ex_subscribed2 = snd (subscribe (VFun 3) (snd (subscribe (VFun 2) ex_store)))"

definition ex_subscribed3 :: store where
  "ex_subscribed3 = snd (subscribe (VFun 2) ex_subscribed2)"

text \<open>
  A store is well formed when its two listener variables refer to allocated arrays. An
  array is frozen when no later operation may write to it: every array except a staging
  list that is not yet the active snapshot. \<open>keeps s s'\<close> says that going from \<open>s\<close> to
  \<open>s'\<close> preserves well-formedness and leaves every frozen array frozen and unchanged.
\<close>

definition store_ok :: "store \<Rightarrow> bool" where
  "store_ok s \<longleftrightarrow>
     currentListeners s < length (arrays s) \<and> nextListeners s < length (arrays s)"

definition frozen :: "store \<Rightarrow> nat \<Rightarrow> bool" where
  "frozen s a \<longleftrightarrow>
     a < length (arrays s) \<and> (a = nextListeners s \<longrightarrow> nextListeners s = currentListeners s)"

definition keeps :: "store \<Rightarrow> store \<Rightarrow> bool" where
  "keeps s s' \<longleftrightarrow>
     (store_ok s \<longrightarrow>
        store_ok s' \<and> (\<forall>a. frozen s a \<longrightarrow> frozen s' a \<and> arrays s' ! a = arrays s ! a))"



text \<open>
  What \<^verbatim>\<open>dispatch\<close> does once the action and the phase have passed its three checks,
  with the snapshot assignment \<^verbatim>\<open>listeners = (currentListeners = nextListeners)\<close> written
  as one update.
\<close>

definition dispatch_accepted ::
  "code \<Rightarrow> ActionTypes \<Rightarrow> nat \<Rightarrow> val \<Rightarrow> store \<Rightarrow> ((err + val) \<times> store) option" where
  "dispatch_accepted C T k action s =
     (case run C T k (body_of C (currentReducer s) [currentState s, action])
             (s\<lparr>isDispatching := True\<rparr>) of
        None \<Rightarrow> None
      | Some (Inl e, s1) \<Rightarrow> Some (Inl e, s1\<lparr>isDispatching := False\<rparr>)
      | Some (Inr v, s1) \<Rightarrow>
          (case notify C T k (nextListeners s1) 0
                  (s1\<lparr>currentState := v, isDispatching := False,
                      currentListeners := nextListeners s1\<rparr>) of
             None \<Rightarrow> None
           | Some (Inl e, s4) \<Rightarrow> Some (Inl e, s4)
           | Some (Inr u, s4) \<Rightarrow> Some (Inr action, s4)))"


section \<open>Middleware composition (src/src/applyMiddleware.js)\<close>

text \<open>
  A dispatch function is a closure, given as data: the placeholder that
  \<^verbatim>\<open>applyMiddleware\<close> installs first, the base store's \<^verbatim>\<open>dispatch\<close>, or what the wrapper of
  middleware \<open>m\<close> returns for a given \<open>next\<close>. A middleware has the usual curried form
  \<^verbatim>\<open>api => next => action => body\<close>: its first two stages only build closures, and
  \<open>M m action\<close> is the body, a tree of calls on \<^verbatim>\<open>next\<close>, on \<^verbatim>\<open>api.dispatch\<close> and on
  \<^verbatim>\<open>api.getState\<close>.
\<close>

datatype dfn = Placeholder | StoreDispatch | Wrapped nat dfn

datatype mprog =
    MReturn val
  | MThrow err
  | MEmit val mprog
  | MNext val "outcome \<Rightarrow> mprog"
  | MApiDispatch val "outcome \<Rightarrow> mprog"
  | MApiGetState "outcome \<Rightarrow> mprog"

type_synonym mcode = "nat \<Rightarrow> val \<Rightarrow> mprog"

text \<open>
  The variables of one call of the enhanced constructor: the base store, the variable
  \<^verbatim>\<open>dispatch\<close> that the trampoline \<^verbatim>\<open>(...args) => dispatch(...args)\<close> of
  \<^verbatim>\<open>middlewareAPI\<close> reads when it is called, and a record of which middleware was entered
  with which action. User code of the base store (reducers, listeners) reaches the base
  store's own methods.
\<close>

record world =
  base :: store
  dispatchVar :: dfn
  seen :: "(nat \<times> val) list"

definition placeholder_error :: err where
  "placeholder_error = Error ''Dispatching while constructing your middleware is not allowed. Other middleware would not be applied to this dispatch.''"

fun call :: "mcode \<Rightarrow> code \<Rightarrow> ActionTypes \<Rightarrow> nat \<Rightarrow> dfn \<Rightarrow> val \<Rightarrow> world \<Rightarrow> ((err + val) \<times> world) option"
  and mrun :: "mcode \<Rightarrow> code \<Rightarrow> ActionTypes \<Rightarrow> nat \<Rightarrow> dfn \<Rightarrow> mprog \<Rightarrow> world \<Rightarrow> ((err + val) \<times> world) option"
  where
  "call M C T 0 d action w = None"
| "call M C T (Suc k) Placeholder action w = Some (Inl placeholder_error, w)"
| "call M C T (Suc k) StoreDispatch action w =
     (case dispatch C T k action (base w) of
        None \<Rightarrow> None
      | Some (r, s') \<Rightarrow> Some (r, w\<lparr>base := s'\<rparr>))"
| "call M C T (Suc k) (Wrapped m next) action w =
     mrun M C T k next (M m action) (w\<lparr>seen := seen w @ [(m, action)]\<rparr>)"
| "mrun M C T 0 next p w = None"
| "mrun M C T (Suc k) next (MReturn v) w = Some (Inr v, w)"
| "mrun M C T (Suc k) next (MThrow e) w = Some (Inl e, w)"
| "mrun M C T (Suc k) next (MEmit v p) w =
     mrun M C T k next p (w\<lparr>base := (base w)\<lparr>emitted := emitted (base w) @ [v]\<rparr>\<rparr>)"
| "mrun M C T (Suc k) next (MNext action cont) w =
     (case call M C T k next action w of
        None \<Rightarrow> None
      | Some (r, w1) \<Rightarrow> mrun M C T k next (cont (to_outcome r)) w1)"
| "mrun M C T (Suc k) next (MApiDispatch action cont) w =
     (case call M C T k (dispatchVar w) action w of
        None \<Rightarrow> None
      | Some (r, w1) \<Rightarrow> mrun M C T k next (cont (to_outcome r)) w1)"
| "mrun M C T (Suc k) next (MApiGetState cont) w =
     mrun M C T k next (cont (to_outcome (getState (base w)))) w"









subsection \<open>Example middlewares\<close>





text \<open>
  The registry is consistent when the store is well formed, every registered listener is
  a function, and the staging list holds one entry for every registration whose
  unsubscribe closure has not been used, and nothing else.
\<close>

definition registry_ok :: "store \<Rightarrow> bool" where
  "registry_ok s \<longleftrightarrow>
     store_ok s \<and> (\<forall>p \<in> set (subscriptions s). is_function (fst p)) \<and>
     mset (staging s) = image_mset fst (filter_mset snd (mset (subscriptions s)))"

section \<open>Properties of compose\<close>



text \<open>
  Claim C6. \<^verbatim>\<open>compose()(x)\<close> is \<open>x\<close>, \<^verbatim>\<open>compose(f)\<close> is \<open>f\<close> itself, and
  \<^verbatim>\<open>compose(f, g, h)(x)\<close> is \<open>f (g (h x))\<close>: the last function listed receives the
  original argument and evaluation goes from right to left.
\<close>

theorem compose_right_to_left:
  "compose [] x = x \<and> compose [f] = f \<and> compose [f, g, h] x = f (g (h x))"
  by (simp add: compose_def)

section \<open>Properties of combineReducers\<close>













lemma ex_read_slice:
  "read_slice ex_state ''a'' = VNum 1" "read_slice ex_state ''b'' = VObj 3 True []"
  by (simp_all add: read_slice_def ex_state_def)











section \<open>Properties of the store engine\<close>

lemma quiet_refl: "quiet s s"
  by (simp add: quiet_def)

lemma quiet_trans: "quiet s s1 \<Longrightarrow> quiet s1 s2 \<Longrightarrow> quiet s s2"
  by (simp add: quiet_def)

lemma dispatch_rejected:
  "\<not> valid_action action \<or> isDispatching s \<Longrightarrow> \<exists>e. dispatch C T (Suc k) action s = Some (Inl e, s)"
  by (auto simp: valid_action_def)

lemma dispatch_busy_quiet:
  assumes "isDispatching s" and "dispatch C T k action s = Some (r, s')"
  shows "s' = s"
  using assms by (cases k) (auto split: if_splits)

lemma subscribe_busy: "isDispatching s \<Longrightarrow> snd (subscribe listener s) = s"
  by (simp add: subscribe_def)

lemma unsubscribe_busy: "isDispatching s \<Longrightarrow> snd (unsubscribe tok s) = s"
  by (simp add: unsubscribe_def split: prod.splits)

lemma replaceReducer_busy_quiet:
  assumes "isDispatching s" and "replaceReducer C T k nextReducer s = Some (r, s')"
  shows "quiet s s'"
proof (cases k)
  case 0
  then show ?thesis using assms by simp
next
  case (Suc j)
  show ?thesis
  proof (cases "is_function nextReducer")
    case False
    then show ?thesis using assms Suc by (simp add: quiet_refl)
  next
    case True
    let ?s0 = "s\<lparr>currentReducer := nextReducer, nextObject := nextObject s + 1\<rparr>"
    let ?a = "action_of_type (nextObject s) (VStr (REPLACE T))"
    from assms Suc True obtain r0 s0 where d: "dispatch C T j ?a ?s0 = Some (r0, s0)" and s': "s' = s0"
      by (auto split: option.splits sum.splits)
    have "isDispatching ?s0" using assms(1) by simp
    then have "s0 = ?s0" using d by (rule dispatch_busy_quiet)
    then show ?thesis using s' by (simp add: quiet_def)
  qed
qed

lemma run_busy_quiet:
  "isDispatching s \<Longrightarrow> run C T k p s = Some (r, s') \<Longrightarrow> quiet s s'"
proof (induction k arbitrary: p s)
  case 0
  then show ?case by simp
next
  case (Suc k)
  show ?case
  proof (cases p)
    case (Return v)
    then show ?thesis using Suc.prems by (simp add: quiet_refl)
  next
    case (Throw e)
    then show ?thesis using Suc.prems by (simp add: quiet_refl)
  next
    case (Emit v q)
    let ?s0 = "s\<lparr>emitted := emitted s @ [v]\<rparr>"
    have "isDispatching ?s0" using Suc.prems(1) by simp
    moreover have "run C T k q ?s0 = Some (r, s')" using Suc.prems(2) Emit by simp
    ultimately have "quiet ?s0 s'" by (rule Suc.IH)
    then show ?thesis by (simp add: quiet_def)
  next
    case (CallDispatch action cont)
    from Suc.prems(2) CallDispatch obtain r1 s1
      where d: "dispatch C T k action s = Some (r1, s1)"
        and rest: "run C T k (cont (to_outcome r1)) s1 = Some (r, s')"
      by (auto split: option.splits)
    have "s1 = s" using Suc.prems(1) d by (rule dispatch_busy_quiet)
    then show ?thesis using Suc.IH[OF Suc.prems(1)] rest by simp
  next
    case (CallGetState cont)
    then show ?thesis using Suc.prems Suc.IH by simp
  next
    case (CallSubscribe listener cont)
    have "snd (subscribe listener s) = s" using Suc.prems(1) by (rule subscribe_busy)
    then show ?thesis using Suc.prems CallSubscribe Suc.IH
      by (cases "subscribe listener s") (auto split: sum.splits)
  next
    case (CallUnsubscribe tok cont)
    have "snd (unsubscribe tok s) = s" using Suc.prems(1) by (rule unsubscribe_busy)
    then show ?thesis using Suc.prems CallUnsubscribe Suc.IH
      by (cases "unsubscribe tok s") (auto split: sum.splits)
  next
    case (CallReplaceReducer nextReducer cont)
    from Suc.prems(2) CallReplaceReducer obtain r1 s1
      where d: "replaceReducer C T k nextReducer s = Some (r1, s1)"
        and rest: "run C T k (cont (to_outcome r1)) s1 = Some (r, s')"
      by (auto split: option.splits)
    have q: "quiet s s1" using Suc.prems(1) d by (rule replaceReducer_busy_quiet)
    then have "isDispatching s1" using Suc.prems(1) by (simp add: quiet_def)
    then have "quiet s1 s'" using rest by (rule Suc.IH)
    then show ?thesis using q quiet_trans by blast
  qed
qed

lemmas ex_store_defs =
  ex_prog_def ex_reducer_def ex_store_def ex_again_def ex_boom_def ex_inc_def ex_noop_def
  ex_types_def has_type_def action_of_type_def body_of_def valid_action_def read_slice_def
  is_undefined_def to_outcome_def getState_def


text \<open>
  Claim C1. When the store is idle, the action passes the two checks and the reducer that
  \<^verbatim>\<open>dispatch\<close> invokes throws \<open>e\<close> (whatever the reducer did before, calls on the store
  included), \<^verbatim>\<open>dispatch\<close> throws \<open>e\<close> and leaves a store whose phase flag is reset, whose
  state is the state from before the dispatch, whose listener arrays and subscriptions are
  untouched, and on which \<^verbatim>\<open>getState\<close> returns that state: the reentrancy guard of a later
  \<^verbatim>\<open>dispatch\<close> or \<^verbatim>\<open>getState\<close> does not fire.
\<close>

theorem failed_dispatch_restores_idle:
  assumes "valid_action action" and "\<not> isDispatching s"
    and "run C T k (body_of C (currentReducer s) [currentState s, action])
           (s\<lparr>isDispatching := True\<rparr>) = Some (Inl e, s1)"
  shows "\<exists>s'. dispatch C T (Suc k) action s = Some (Inl e, s') \<and>
              \<not> isDispatching s' \<and> currentState s' = currentState s \<and>
              getState s' = Inr (currentState s) \<and>
              arrays s' = arrays s \<and> nextListeners s' = nextListeners s \<and>
              currentListeners s' = currentListeners s \<and> subscriptions s' = subscriptions s"
proof -
  have "isDispatching (s\<lparr>isDispatching := True\<rparr>)" by simp
  then have q: "quiet (s\<lparr>isDispatching := True\<rparr>) s1"
    using assms(3) by (rule run_busy_quiet)
  have d: "dispatch C T (Suc k) action s = Some (Inl e, s1\<lparr>isDispatching := False\<rparr>)"
    using assms by (simp add: valid_action_def)
  show ?thesis
    using d q by (simp add: quiet_def getState_def)
qed

theorem failed_dispatch_restores_idle_witness:
  "\<exists>s'. dispatch ex_prog ex_types (Suc 3) ex_again ex_store = Some (Inl reentrancy_error, s') \<and>
        \<not> isDispatching s' \<and> currentState s' = VNum 0 \<and> getState s' = Inr (VNum 0)"
proof -
  have h1: "valid_action ex_again" by (simp add: ex_store_defs)
  have h2: "\<not> isDispatching ex_store" by (simp add: ex_store_def)
  have h3: "run ex_prog ex_types 3 (body_of ex_prog (currentReducer ex_store)
                [currentState ex_store, ex_again]) (ex_store\<lparr>isDispatching := True\<rparr>)
            = Some (Inl reentrancy_error, ex_store\<lparr>isDispatching := True\<rparr>)"
    by (simp add: ex_store_defs eval_nat_numeral)
  have st: "currentState ex_store = VNum 0" by (simp add: ex_store_def)
  from failed_dispatch_restores_idle[OF h1 h2 h3] obtain s'
    where "dispatch ex_prog ex_types (Suc 3) ex_again ex_store = Some (Inl reentrancy_error, s')"
      and "\<not> isDispatching s'" and "currentState s' = currentState ex_store"
      and "getState s' = Inr (currentState ex_store)"
    by blast
  then show ?thesis unfolding st by blast
qed

text \<open>
  The claim C7 as it is written fails: the action below is a plain object with a type and
  the store is idle, and \<^verbatim>\<open>dispatch\<close> throws, because the reducer throws.
\<close>

theorem dispatch_throws_counterexample:
  "isPlainObject ex_boom \<and> \<not> is_undefined (read_slice ex_boom ''type'') \<and>
   \<not> isDispatching ex_store \<and>
   dispatch ex_prog ex_types 3 ex_boom ex_store = Some (Inl (Error ''boom''), ex_store)"
  by (simp add: ex_store_defs eval_nat_numeral)

text \<open>
  Claim C7, as amended. \<^verbatim>\<open>dispatch\<close> throws without invoking the reducer, leaving the
  store as it was, when the action is not a plain object, or its type is undefined, or the
  store is in the Dispatching phase. Otherwise it invokes the reducer, and whatever it
  throws was thrown by the reducer or, after the reducer returned, by the notification of
  the listeners. Whenever \<^verbatim>\<open>dispatch\<close> returns, it returns the very action it was given, and
  it assigned the reducer's result to the current state before notifying the listeners.
\<close>

theorem dispatch_outcomes:
  "(\<not> valid_action action \<or> isDispatching s \<longrightarrow>
      (\<exists>e. dispatch C T (Suc k) action s = Some (Inl e, s))) \<and>
   (valid_action action \<and> \<not> isDispatching s \<longrightarrow>
      (\<forall>e s'. dispatch C T (Suc k) action s = Some (Inl e, s') \<longrightarrow>
         (\<exists>s1. run C T k (body_of C (currentReducer s) [currentState s, action])
                  (s\<lparr>isDispatching := True\<rparr>) = Some (Inl e, s1)) \<or>
         (\<exists>v s1. run C T k (body_of C (currentReducer s) [currentState s, action])
                  (s\<lparr>isDispatching := True\<rparr>) = Some (Inr v, s1) \<and>
                notify C T k (nextListeners s1) 0
                  (s1\<lparr>currentState := v, isDispatching := False,
                      currentListeners := nextListeners s1\<rparr>) = Some (Inl e, s')))) \<and>
   (\<forall>r s'. dispatch C T (Suc k) action s = Some (Inr r, s') \<longrightarrow>
      r = action \<and> valid_action action \<and> \<not> isDispatching s \<and>
      (\<exists>v s1. run C T k (body_of C (currentReducer s) [currentState s, action])
                 (s\<lparr>isDispatching := True\<rparr>) = Some (Inr v, s1) \<and>
               notify C T k (nextListeners s1) 0
                 (s1\<lparr>currentState := v, isDispatching := False,
                     currentListeners := nextListeners s1\<rparr>) = Some (Inr (), s')))"
  by (auto simp: valid_action_def Let_def split: option.splits sum.splits if_splits)

theorem dispatch_outcomes_witness:
  "dispatch ex_prog ex_types (Suc 2) ex_inc ex_store
     = Some (Inr ex_inc, ex_store\<lparr>currentState := VNum 1\<rparr>) \<and>
   (\<exists>e. dispatch ex_prog ex_types (Suc 2) (VStr ''inc'') ex_store = Some (Inl e, ex_store))"
proof -
  have ev: "dispatch ex_prog ex_types (Suc 2) ex_inc ex_store
              = Some (Inr ex_inc, ex_store\<lparr>currentState := VNum 1\<rparr>)"
    by (simp add: ex_store_defs eval_nat_numeral)
  have bad: "\<not> valid_action (VStr ''inc'')" by (simp add: valid_action_def)
  have "\<exists>e. dispatch ex_prog ex_types (Suc 2) (VStr ''inc'') ex_store = Some (Inl e, ex_store)"
    using dispatch_outcomes[of "VStr ''inc''" ex_store ex_prog ex_types 2] bad by blast
  then show ?thesis using ev by blast
qed

lemma strict_neq_fun: "strict_neq x (VFun f) = (x \<noteq> VFun f)"
  by (cases x) simp_all

lemma indexOf_absent: "VFun f \<notin> set xs \<Longrightarrow> indexOf xs (VFun f) = - 1"
  by (induction xs) (auto simp: strict_neq_fun)

lemma indexOf_present:
  "VFun f \<in> set xs \<Longrightarrow> 0 \<le> indexOf xs (VFun f) \<and> indexOf xs (VFun f) < int (length xs)"
proof (induction xs)
  case Nil
  then show ?case by simp
next
  case (Cons x xs)
  show ?case
  proof (cases "x = VFun f")
    case True
    then show ?thesis by (simp add: strict_neq_fun)
  next
    case False
    then have "VFun f \<in> set xs" using Cons.prems by simp
    then show ?thesis using Cons.IH False by (simp add: strict_neq_fun Let_def)
  qed
qed

lemma splice1_zero: "splice1 (x # xs) 0 = xs"
  by (simp add: splice1_def)

lemma splice1_succ: "0 \<le> i \<Longrightarrow> splice1 (x # xs) (i + 1) = x # splice1 xs i"
  by (simp add: splice1_def Let_def nat_add_distrib min_def)

lemma splice1_indexOf:
  "VFun f \<in> set xs \<Longrightarrow> splice1 xs (indexOf xs (VFun f)) = remove1 (VFun f) xs"
proof (induction xs)
  case Nil
  then show ?case by simp
next
  case (Cons x xs)
  show ?case
  proof (cases "x = VFun f")
    case True
    then show ?thesis by (simp add: strict_neq_fun splice1_zero)
  next
    case False
    then have m: "VFun f \<in> set xs" using Cons.prems by simp
    then have "0 \<le> indexOf xs (VFun f)" using indexOf_present by blast
    then show ?thesis
      using False Cons.IH[OF m] by (simp add: strict_neq_fun Let_def splice1_succ)
  qed
qed

lemma staging_after_write:
  assumes "store_ok s"
  shows "staging ((ensureCanMutateNextListeners s)
            \<lparr>arrays := (arrays (ensureCanMutateNextListeners s))
               [nextListeners (ensureCanMutateNextListeners s) := xs]\<rparr>) = xs"
    and "arrays (ensureCanMutateNextListeners s) ! nextListeners (ensureCanMutateNextListeners s)
           = staging s"
  using assms by (auto simp: ensureCanMutateNextListeners_def staging_def store_ok_def)

lemma unsubscribe_inactive:
  "tok < length (subscriptions s) \<Longrightarrow> subscriptions s ! tok = (l, False) \<Longrightarrow>
     unsubscribe tok s = (Inr (), s)"
  by (simp add: unsubscribe_def)

lemma keeps_refl: "keeps s s"
  by (simp add: keeps_def)

lemma keeps_trans: "keeps s s1 \<Longrightarrow> keeps s1 s2 \<Longrightarrow> keeps s s2"
  by (simp add: keeps_def)



lemma keeps_ensure: "keeps s (ensureCanMutateNextListeners s)"
proof (cases "nextListeners s = currentListeners s")
  case False
  then show ?thesis by (simp add: ensureCanMutateNextListeners_def keeps_refl)
next
  case True
  let ?s' = "s\<lparr>arrays := arrays s @ [arrays s ! currentListeners s],
               nextListeners := length (arrays s)\<rparr>"
  have e: "ensureCanMutateNextListeners s = ?s'"
    using True by (simp add: ensureCanMutateNextListeners_def)
  have "store_ok ?s'" if "store_ok s"
    using that by (simp add: store_ok_def)
  moreover have "frozen ?s' a \<and> arrays ?s' ! a = arrays s ! a" if "frozen s a" for a
  proof -
    have "a < length (arrays s)" using that by (simp add: frozen_def)
    then show ?thesis by (simp add: frozen_def nth_append)
  qed
  ultimately show ?thesis unfolding e keeps_def by blast
qed

lemma ensure_separates:
  "store_ok s \<Longrightarrow> \<not> frozen (ensureCanMutateNextListeners s) (nextListeners (ensureCanMutateNextListeners s))"
  by (auto simp: store_ok_def frozen_def ensureCanMutateNextListeners_def)

lemma keeps_write_staging:
  assumes "\<not> frozen s (nextListeners s)"
  shows "keeps s (s\<lparr>arrays := (arrays s)[nextListeners s := xs]\<rparr>)"
  using assms by (auto simp: keeps_def store_ok_def frozen_def)

lemma keeps_write_after_ensure:
  "keeps s ((ensureCanMutateNextListeners s)
      \<lparr>arrays := (arrays (ensureCanMutateNextListeners s))
         [nextListeners (ensureCanMutateNextListeners s) := xs]\<rparr>)"
proof (cases "store_ok s")
  case True
  have "keeps (ensureCanMutateNextListeners s)
          ((ensureCanMutateNextListeners s)
             \<lparr>arrays := (arrays (ensureCanMutateNextListeners s))
                [nextListeners (ensureCanMutateNextListeners s) := xs]\<rparr>)"
    using ensure_separates[OF True] by (rule keeps_write_staging)
  then show ?thesis using keeps_ensure keeps_trans by blast
next
  case False
  then show ?thesis by (simp add: keeps_def)
qed



lemma dispatch_accepted_eq:
  "valid_action a \<Longrightarrow> \<not> isDispatching s \<Longrightarrow>
     dispatch C T (Suc k) a s = dispatch_accepted C T k a s"
  by (simp add: valid_action_def dispatch_accepted_def Let_def
      split: option.splits sum.splits prod.splits)







lemma invariant_all:
  assumes frame: "\<And>s s'. P s \<Longrightarrow> arrays s' = arrays s \<Longrightarrow> nextListeners s' = nextListeners s \<Longrightarrow>
      subscriptions s' = subscriptions s \<Longrightarrow>
      currentListeners s' = currentListeners s \<or> currentListeners s' = nextListeners s \<Longrightarrow> P s'"
    and sub: "\<And>s l. P s \<Longrightarrow> P (snd (subscribe l s))"
    and unsub: "\<And>s tok. P s \<Longrightarrow> P (snd (unsubscribe tok s))"
  shows "(\<forall>p s r s'. P s \<longrightarrow> run C T k p s = Some (r, s') \<longrightarrow> P s') \<and>
         (\<forall>a s r s'. P s \<longrightarrow> dispatch C T k a s = Some (r, s') \<longrightarrow> P s') \<and>
         (\<forall>c i s r s'. P s \<longrightarrow> notify C T k c i s = Some (r, s') \<longrightarrow> P s') \<and>
         (\<forall>n s r s'. P s \<longrightarrow> replaceReducer C T k n s = Some (r, s') \<longrightarrow> P s')"
proof (induction k)
  case 0
  then show ?case by simp
next
  case (Suc k)
  then have IHrun: "\<And>p s r s'. P s \<Longrightarrow> run C T k p s = Some (r, s') \<Longrightarrow> P s'"
    and IHdispatch: "\<And>a s r s'. P s \<Longrightarrow> dispatch C T k a s = Some (r, s') \<Longrightarrow> P s'"
    and IHnotify: "\<And>c i s r s'. P s \<Longrightarrow> notify C T k c i s = Some (r, s') \<Longrightarrow> P s'"
    and IHreplace: "\<And>n s r s'. P s \<Longrightarrow> replaceReducer C T k n s = Some (r, s') \<Longrightarrow> P s'"
    by blast+
  have run: "P s'" if P: "P s" and h: "run C T (Suc k) p s = Some (r, s')" for p s r s'
  proof (cases p)
    case (Return v)
    then show ?thesis using h P by simp
  next
    case (Throw e)
    then show ?thesis using h P by simp
  next
    case (Emit v q)
    have "P (s\<lparr>emitted := emitted s @ [v]\<rparr>)" using P by (rule frame) simp_all
    moreover have "run C T k q (s\<lparr>emitted := emitted s @ [v]\<rparr>) = Some (r, s')"
      using h Emit by simp
    ultimately show ?thesis by (rule IHrun)
  next
    case (CallDispatch action cont)
    have "(case dispatch C T k action s of None \<Rightarrow> None
           | Some (r1, s1) \<Rightarrow> run C T k (cont (to_outcome r1)) s1) = Some (r, s')"
      using h CallDispatch by simp
    then obtain r1 s1
      where "dispatch C T k action s = Some (r1, s1)"
        and "run C T k (cont (to_outcome r1)) s1 = Some (r, s')"
      by (cases "dispatch C T k action s") auto
    then show ?thesis using P IHdispatch IHrun by blast
  next
    case (CallGetState cont)
    then show ?thesis using h P IHrun by simp
  next
    case (CallSubscribe listener cont)
    obtain r1 s1 where s1: "subscribe listener s = (r1, s1)" by (cases "subscribe listener s")
    then have "P s1" using sub[OF P, of listener] by simp
    moreover have "run C T k (cont (case r1 of Inl e \<Rightarrow> Threw e | Inr tok \<Rightarrow> Unsubscriber tok)) s1
                     = Some (r, s')"
      using h CallSubscribe s1 by (cases r1) simp_all
    ultimately show ?thesis by (rule IHrun)
  next
    case (CallUnsubscribe tok cont)
    obtain r1 s1 where s1: "unsubscribe tok s = (r1, s1)" by (cases "unsubscribe tok s")
    then have "P s1" using unsub[OF P, of tok] by simp
    moreover have "run C T k (cont (case r1 of Inl e \<Rightarrow> Threw e | Inr u \<Rightarrow> Returned VUndef)) s1
                     = Some (r, s')"
      using h CallUnsubscribe s1 by (cases r1) simp_all
    ultimately show ?thesis by (rule IHrun)
  next
    case (CallReplaceReducer nextReducer cont)
    have "(case replaceReducer C T k nextReducer s of None \<Rightarrow> None
           | Some (r1, s1) \<Rightarrow> run C T k (cont (to_outcome r1)) s1) = Some (r, s')"
      using h CallReplaceReducer by simp
    then obtain r1 s1
      where "replaceReducer C T k nextReducer s = Some (r1, s1)"
        and "run C T k (cont (to_outcome r1)) s1 = Some (r, s')"
      by (cases "replaceReducer C T k nextReducer s") auto
    then show ?thesis using P IHreplace IHrun by blast
  qed
  have dispatch: "P s'" if P: "P s" and h: "dispatch C T (Suc k) a s = Some (r, s')" for a s r s'
  proof (cases "\<not> valid_action a \<or> isDispatching s")
    case True
    then obtain e where "dispatch C T (Suc k) a s = Some (Inl e, s)"
      using dispatch_rejected by blast
    then show ?thesis using h P by simp
  next
    case False
    let ?s0 = "s\<lparr>isDispatching := True\<rparr>"
    let ?red = "run C T k (body_of C (currentReducer s) [currentState s, a]) ?s0"
    have P0: "P ?s0" using P by (rule frame) simp_all
    have acc: "dispatch C T (Suc k) a s = dispatch_accepted C T k a s"
      using False by (intro dispatch_accepted_eq) simp_all
    show ?thesis
    proof (cases ?red)
      case None
      then show ?thesis using h acc by (simp add: dispatch_accepted_def)
    next
      case (Some res)
      obtain r1 s1 where res: "res = (r1, s1)" by (cases res)
      have P1: "P s1" using P0 Some res IHrun by blast
      show ?thesis
      proof (cases r1)
        case (Inl e)
        then have "s' = s1\<lparr>isDispatching := False\<rparr>"
          using h acc Some res by (simp add: dispatch_accepted_def)
        moreover have "P (s1\<lparr>isDispatching := False\<rparr>)" using P1 by (rule frame) simp_all
        ultimately show ?thesis by simp
      next
        case (Inr v)
        let ?s3 = "s1\<lparr>currentState := v, isDispatching := False,
                      currentListeners := nextListeners s1\<rparr>"
        have P3: "P ?s3" using P1 by (rule frame) simp_all
        have "(case notify C T k (nextListeners s1) 0 ?s3 of None \<Rightarrow> None
                  | Some (Inl e, s4) \<Rightarrow> Some (Inl e, s4)
                  | Some (Inr u, s4) \<Rightarrow> Some (Inr a, s4)) = Some (r, s')"
          using h acc Some res Inr by (simp add: dispatch_accepted_def)
        then obtain r4 where "notify C T k (nextListeners s1) 0 ?s3 = Some (r4, s')"
          by (cases "notify C T k (nextListeners s1) 0 ?s3") (auto split: sum.splits)
        with P3 show ?thesis by (rule IHnotify)
      qed
    qed
  qed
  have notify: "P s'" if P: "P s" and h: "notify C T (Suc k) c i s = Some (r, s')" for c i s r s'
  proof (cases "i < length (arrays s ! c)")
    case False
    then show ?thesis using h P by simp
  next
    case True
    from h True obtain r1 s1
      where l: "run C T k (body_of C (arrays s ! c ! i) []) s = Some (r1, s1)"
      by (cases "run C T k (body_of C (arrays s ! c ! i) []) s") auto
    have P1: "P s1" using P l by (rule IHrun)
    show ?thesis
    proof (cases r1)
      case (Inl e)
      then show ?thesis using h True l P1 by simp
    next
      case (Inr v)
      then have "notify C T k c (i + 1) s1 = Some (r, s')" using h True l by simp
      with P1 show ?thesis by (rule IHnotify)
    qed
  qed
  have replace: "P s'" if P: "P s" and h: "replaceReducer C T (Suc k) n s = Some (r, s')" for n s r s'
  proof (cases "is_function n")
    case False
    then show ?thesis using h P by simp
  next
    case True
    let ?s0 = "s\<lparr>currentReducer := n, nextObject := nextObject s + 1\<rparr>"
    have P0: "P ?s0" using P by (rule frame) simp_all
    from h True obtain r1
      where "dispatch C T k (action_of_type (nextObject s) (VStr (REPLACE T))) ?s0 = Some (r1, s')"
      by (cases "dispatch C T k (action_of_type (nextObject s) (VStr (REPLACE T))) ?s0")
         (auto split: sum.splits)
    with P0 show ?thesis by (rule IHdispatch)
  qed
  show ?case using run dispatch notify replace by blast
qed

lemma registry_frame:
  assumes "registry_ok s" and "arrays s' = arrays s" and "nextListeners s' = nextListeners s"
    and "subscriptions s' = subscriptions s"
    and "currentListeners s' = currentListeners s \<or> currentListeners s' = nextListeners s"
  shows "registry_ok s'"
  using assms by (auto simp: registry_ok_def store_ok_def staging_def)

lemma mutate_effect:
  assumes "store_ok s"
  shows "staging ((ensureCanMutateNextListeners s)
            \<lparr>arrays := (arrays (ensureCanMutateNextListeners s))
               [nextListeners (ensureCanMutateNextListeners s) := xs]\<rparr>) = xs"
    and "store_ok ((ensureCanMutateNextListeners s)
            \<lparr>arrays := (arrays (ensureCanMutateNextListeners s))
               [nextListeners (ensureCanMutateNextListeners s) := xs]\<rparr>)"
    and "subscriptions (ensureCanMutateNextListeners s) = subscriptions s"
proof -
  show "staging ((ensureCanMutateNextListeners s)
            \<lparr>arrays := (arrays (ensureCanMutateNextListeners s))
               [nextListeners (ensureCanMutateNextListeners s) := xs]\<rparr>) = xs"
    using assms by (rule staging_after_write(1))
  have "keeps s ((ensureCanMutateNextListeners s)
            \<lparr>arrays := (arrays (ensureCanMutateNextListeners s))
               [nextListeners (ensureCanMutateNextListeners s) := xs]\<rparr>)"
    by (rule keeps_write_after_ensure)
  then show "store_ok ((ensureCanMutateNextListeners s)
            \<lparr>arrays := (arrays (ensureCanMutateNextListeners s))
               [nextListeners (ensureCanMutateNextListeners s) := xs]\<rparr>)"
    using assms by (simp add: keeps_def)
  show "subscriptions (ensureCanMutateNextListeners s) = subscriptions s"
    by (simp add: ensureCanMutateNextListeners_def)
qed

lemma registry_subscribe:
  assumes "registry_ok s"
  shows "registry_ok (snd (subscribe listener s))"
proof (cases "is_function listener \<and> \<not> isDispatching s")
  case False
  then show ?thesis using assms by (auto simp: subscribe_def)
next
  case True
  have ok: "store_ok s" using assms by (simp add: registry_ok_def)
  let ?s1 = "ensureCanMutateNextListeners s"
  let ?w = "?s1\<lparr>arrays := (arrays ?s1)[nextListeners ?s1 := staging s @ [listener]]\<rparr>"
  let ?s' = "?w\<lparr>subscriptions := subscriptions s @ [(listener, True)]\<rparr>"
  have old: "arrays ?s1 ! nextListeners ?s1 = staging s"
    using ok by (rule staging_after_write(2))
  have eq: "snd (subscribe listener s) = ?s'"
    using True old mutate_effect(3)[OF ok] by (simp add: subscribe_def Let_def)
  have st: "staging ?s' = staging s @ [listener]"
    using mutate_effect(1)[OF ok, of "staging s @ [listener]"] by (simp add: staging_def)
  have ok': "store_ok ?s'"
    using mutate_effect(2)[OF ok, of "staging s @ [listener]"] by (simp add: store_ok_def)
  have "registry_ok ?s'"
    using assms True st ok' by (simp add: registry_ok_def)
  then show ?thesis using eq by simp
qed

lemma active_in_staging:
  assumes "registry_ok s" and "tok < length (subscriptions s)"
    and "subscriptions s ! tok = (l, True)"
  shows "l \<in> set (staging s)" and "\<exists>f. l = VFun f"
proof -
  have mem: "(l, True) \<in> set (subscriptions s)"
    using assms(2,3) by (metis nth_mem)
  then have "(l, True) \<in># filter_mset snd (mset (subscriptions s))" by simp
  then have "fst (l, True) \<in> fst ` set_mset (filter_mset snd (mset (subscriptions s)))"
    by (rule imageI)
  then have "l \<in># image_mset fst (filter_mset snd (mset (subscriptions s)))"
    by (simp only: in_image_mset fst_conv)
  then have "l \<in># mset (staging s)" using assms(1) by (simp add: registry_ok_def)
  then show "l \<in> set (staging s)" by simp
  have "is_function l" using assms(1) mem by (auto simp: registry_ok_def)
  then show "\<exists>f. l = VFun f" by (cases l) simp_all
qed

lemma registry_unsubscribe:
  assumes "registry_ok s"
  shows "registry_ok (snd (unsubscribe tok s))"
proof (cases "tok < length (subscriptions s) \<and> snd (subscriptions s ! tok) \<and> \<not> isDispatching s")
  case False
  then show ?thesis using assms by (auto simp: unsubscribe_def split: prod.splits)
next
  case True
  obtain l where l: "subscriptions s ! tok = (l, True)"
    using True by (cases "subscriptions s ! tok") auto
  obtain f where f: "l = VFun f" and mem: "l \<in> set (staging s)"
    using active_in_staging[OF assms _ l] True by blast
  have ok: "store_ok s" using assms by (simp add: registry_ok_def)
  let ?subs = "(subscriptions s)[tok := (l, False)]"
  let ?s1 = "s\<lparr>subscriptions := ?subs\<rparr>"
  let ?s2 = "ensureCanMutateNextListeners ?s1"
  let ?s' = "?s2\<lparr>arrays := (arrays ?s2)[nextListeners ?s2 := remove1 l (staging s)]\<rparr>"
  have ok1: "store_ok ?s1" using ok by (simp add: store_ok_def)
  have st1: "staging ?s1 = staging s" by (simp add: staging_def)
  have old: "arrays ?s2 ! nextListeners ?s2 = staging s"
    using staging_after_write(2)[OF ok1] st1 by simp
  have "splice1 (staging s) (indexOf (staging s) l) = remove1 l (staging s)"
    using mem f by (simp add: splice1_indexOf)
  then have eq: "snd (unsubscribe tok s) = ?s'"
    using True l old by (simp add: unsubscribe_def Let_def)
  have st: "staging ?s' = remove1 l (staging s)"
    using mutate_effect(1)[OF ok1] by simp
  have ok': "store_ok ?s'" using mutate_effect(2)[OF ok1] by simp
  have subs: "subscriptions ?s' = ?subs" using mutate_effect(3)[OF ok1] by simp
  have fn: "\<forall>p \<in> set ?subs. is_function (fst p)"
  proof
    fix p assume "p \<in> set ?subs"
    then have "p = (l, False) \<or> p \<in> set (subscriptions s)"
      using set_update_subset_insert[of "subscriptions s" tok "(l, False)"] by auto
    then show "is_function (fst p)" using assms f by (auto simp: registry_ok_def)
  qed
  have m: "mset ?subs = add_mset (l, False) (mset (subscriptions s) - {#(l, True)#})"
    using True l by (simp add: mset_update)
  have in_f: "{#(l, True)#} \<subseteq># filter_mset snd (mset (subscriptions s))"
    using True l by simp (metis nth_mem)
  have "image_mset fst (filter_mset snd (mset ?subs))
        = image_mset fst (filter_mset snd (mset (subscriptions s)) - {#(l, True)#})"
    using m by simp
  also have "\<dots> = image_mset fst (filter_mset snd (mset (subscriptions s))) - {#l#}"
    using in_f by (simp add: image_mset_Diff)
  also have "\<dots> = mset (staging s) - {#l#}" using assms by (simp add: registry_ok_def)
  also have "\<dots> = mset (remove1 l (staging s))" by simp
  finally have "mset (staging ?s') = image_mset fst (filter_mset snd (mset (subscriptions ?s')))"
    using st subs by simp
  then have "registry_ok ?s'" using ok' fn subs by (simp add: registry_ok_def)
  then show ?thesis using eq by simp
qed

lemma registry_kept_all:
  "(\<forall>p s r s'. registry_ok s \<longrightarrow> run C T k p s = Some (r, s') \<longrightarrow> registry_ok s') \<and>
   (\<forall>a s r s'. registry_ok s \<longrightarrow> dispatch C T k a s = Some (r, s') \<longrightarrow> registry_ok s') \<and>
   (\<forall>c i s r s'. registry_ok s \<longrightarrow> notify C T k c i s = Some (r, s') \<longrightarrow> registry_ok s') \<and>
   (\<forall>n s r s'. registry_ok s \<longrightarrow> replaceReducer C T k n s = Some (r, s') \<longrightarrow> registry_ok s')"
proof (rule invariant_all)
  fix s s' :: store
  assume "registry_ok s" "arrays s' = arrays s" "nextListeners s' = nextListeners s"
    "subscriptions s' = subscriptions s"
    "currentListeners s' = currentListeners s \<or> currentListeners s' = nextListeners s"
  then show "registry_ok s'" by (rule registry_frame)
next
  fix s l
  assume "registry_ok s"
  then show "registry_ok (snd (subscribe l s))" by (rule registry_subscribe)
next
  fix s tok
  assume "registry_ok s"
  then show "registry_ok (snd (unsubscribe tok s))" by (rule registry_unsubscribe)
qed

lemma registry_kept:
  "registry_ok s \<Longrightarrow> run C T k p s = Some (r, s') \<Longrightarrow> registry_ok s'"
  "registry_ok s \<Longrightarrow> dispatch C T k a s = Some (r, s') \<Longrightarrow> registry_ok s'"
  "registry_ok s \<Longrightarrow> replaceReducer C T k n s = Some (r, s') \<Longrightarrow> registry_ok s'"
  using registry_kept_all[of C T k] by blast+

lemma registry_createStore:
  assumes "createStore C T k reducer preloadedState n = Some (Inr s)"
  shows "registry_ok s"
proof -
  let ?s0 = "initial_store reducer preloadedState (n + 1)"
  have "registry_ok ?s0"
    by (simp add: registry_ok_def store_ok_def staging_def initial_store_def)
  moreover from assms obtain a where "dispatch C T k (action_of_type n (VStr (INIT T))) ?s0 = Some (Inr a, s)"
    by (auto simp: createStore_def split: if_splits option.splits sum.splits)
  ultimately show ?thesis by (rule registry_kept(2))
qed

lemma ex_subscribed3_eval:
  "ex_subscribed3 = ex_store\<lparr>arrays := [[], [VFun 2, VFun 3, VFun 2]], nextListeners := 1,
      subscriptions := [(VFun 2, True), (VFun 3, True), (VFun 2, True)]\<rparr>"
  "fst (subscribe (VFun 2) ex_subscribed2) = Inr 2"
  by (simp_all add: ex_subscribed3_def ex_subscribed2_def subscribe_def
      ensureCanMutateNextListeners_def ex_store_def Let_def)

text \<open>
  The claim C8 as it is written fails when a callback is registered twice. After
  \<^verbatim>\<open>subscribe(f2)\<close>, \<^verbatim>\<open>subscribe(f3)\<close>, \<^verbatim>\<open>subscribe(f2)\<close> the staging list is \<open>[f2, f3, f2]\<close>
  and the third call returned closure 2. Calling closure 2 leaves \<open>[f3, f2]\<close>: it removed
  the entry of the first registration, not the third entry, which it was issued for and
  whose removal would leave \<open>[f2, f3]\<close>.
\<close>

theorem unsubscribe_duplicate_counterexample:
  "staging ex_subscribed3 = [VFun 2, VFun 3, VFun 2] \<and>
   fst (subscribe (VFun 2) ex_subscribed2) = Inr 2 \<and>
   fst (unsubscribe 2 ex_subscribed3) = Inr () \<and>
   staging (snd (unsubscribe 2 ex_subscribed3)) = [VFun 3, VFun 2]"
  by (simp add: ex_subscribed3_eval staging_def unsubscribe_def ex_store_def
      ensureCanMutateNextListeners_def Let_def splice1_def)

text \<open>
  Claim C8, as amended. In a store whose registry is consistent (every store that
  \<^verbatim>\<open>createStore\<close> returns is, and every operation keeps it so: \<open>registry_createStore\<close>,
  \<open>registry_kept\<close>), in the Idle phase, the first call of the unsubscribe closure of a
  registration of callback \<open>l\<close> returns without throwing, marks that closure as used and
  removes exactly one entry from the staging list: the first entry that is \<open>l\<close> (the
  entry of the earliest remaining registration of \<open>l\<close>, not necessarily the one the
  closure was issued for). Every later call of the same closure, in any phase and any
  later store, returns without throwing and leaves the store as it is.
\<close>

theorem unsubscribe_removes_first_occurrence:
  assumes "registry_ok s" and "\<not> isDispatching s"
    and "tok < length (subscriptions s)"
    and "subscriptions s ! tok = (l, True)"
  shows "\<exists>s'. unsubscribe tok s = (Inr (), s') \<and>
              l \<in> set (staging s) \<and>
              staging s' = remove1 l (staging s) \<and>
              length (staging s') + 1 = length (staging s) \<and>
              subscriptions s' = (subscriptions s)[tok := (l, False)] \<and>
              registry_ok s' \<and>
              unsubscribe tok s' = (Inr (), s') \<and>
              (\<forall>s''. tok < length (subscriptions s'') \<and>
                     subscriptions s'' ! tok = (l, False) \<longrightarrow>
                     unsubscribe tok s'' = (Inr (), s''))"
proof -
  obtain f where f: "l = VFun f" and mem: "l \<in> set (staging s)"
    using active_in_staging[OF assms(1,3,4)] by blast
  have ok: "store_ok s" using assms(1) by (simp add: registry_ok_def)
  let ?s1 = "s\<lparr>subscriptions := (subscriptions s)[tok := (l, False)]\<rparr>"
  let ?s2 = "ensureCanMutateNextListeners ?s1"
  let ?a = "nextListeners ?s2"
  let ?s' = "?s2\<lparr>arrays := (arrays ?s2)[?a := splice1 (arrays ?s2 ! ?a) (indexOf (arrays ?s2 ! ?a) l)]\<rparr>"
  have ok1: "store_ok ?s1" using ok by (simp add: store_ok_def)
  have st1: "staging ?s1 = staging s" by (simp add: staging_def)
  have u: "unsubscribe tok s = (Inr (), ?s')"
    using assms(2,3,4) by (simp add: unsubscribe_def Let_def)
  have old: "arrays ?s2 ! ?a = staging s"
    using staging_after_write(2)[OF ok1] st1 by simp
  have new: "staging ?s' = splice1 (staging s) (indexOf (staging s) l)"
    using staging_after_write(1)[OF ok1] old by simp
  have rm: "staging ?s' = remove1 l (staging s)"
    using new mem f by (simp add: splice1_indexOf)
  have len: "length (staging ?s') + 1 = length (staging s)"
    using rm mem by (simp add: length_remove1) (metis Suc_pred length_pos_if_in_set)
  have subs: "subscriptions ?s' = (subscriptions s)[tok := (l, False)]"
    by (simp add: ensureCanMutateNextListeners_def)
  have reg: "registry_ok ?s'"
    using registry_unsubscribe[OF assms(1), of tok] u by simp
  have again: "unsubscribe tok ?s' = (Inr (), ?s')"
    using subs assms(3) by (intro unsubscribe_inactive[of _ _ l]) simp_all
  show ?thesis
    using u mem rm len subs reg again unsubscribe_inactive by blast
qed

theorem unsubscribe_removes_first_occurrence_witness:
  "\<exists>s'. unsubscribe 0 ex_subscribed3 = (Inr (), s') \<and>
        staging s' = [VFun 3, VFun 2] \<and>
        unsubscribe 0 s' = (Inr (), s')"
proof -
  have h1: "registry_ok ex_subscribed3"
    by (simp add: ex_subscribed3_eval registry_ok_def store_ok_def staging_def ex_store_def)
  have h2: "\<not> isDispatching ex_subscribed3"
    by (simp add: ex_subscribed3_eval ex_store_def)
  have h3: "0 < length (subscriptions ex_subscribed3)"
    by (simp add: ex_subscribed3_eval)
  have h4: "subscriptions ex_subscribed3 ! 0 = (VFun 2, True)"
    by (simp add: ex_subscribed3_eval)
  have st: "staging ex_subscribed3 = [VFun 2, VFun 3, VFun 2]"
    by (simp add: ex_subscribed3_eval staging_def)
  have rm: "remove1 (VFun 2) (staging ex_subscribed3) = [VFun 3, VFun 2]" by (simp add: st)
  show ?thesis
    using unsubscribe_removes_first_occurrence[OF h1 h2 h3 h4] rm by auto
qed

section \<open>Properties of applyMiddleware\<close>













end
